theory Spec2Isabelle
  imports Complex_Main "HOL-Library.Char_ord" "HOL-Library.List_Lexorder" "HOL-Library.AList"
    "HOL-Library.Word"
begin

unbundle bit_operations_syntax

section \<open>Go values used by main.go\<close>

text \<open>
  A Go string is an immutable sequence of bytes; \<^typ>\<open>string\<close> (a list of 8-bit
  \<^typ>\<open>char\<close>) is the same thing, and \<^const>\<open>length\<close> is Go's \<^verbatim>\<open>len\<close>.
  A run-time panic of the program is a value of \<open>panic\<close>; a function that can panic
  returns \<open>panic + 'a\<close>, with \<open>Inl\<close> for the panic.
\<close>

datatype panic =
    IndexOutOfRange nat nat   \<comment> \<open>index, length\<close>
  | SliceOutOfRange nat nat   \<comment> \<open>bound, length\<close>
  | MustPanic string          \<comment> \<open>\<^verbatim>\<open>prometheus.MustNewConstMetric\<close> refused the metric\<close>

definition byte_at :: "string \<Rightarrow> nat \<Rightarrow> nat" where
  \<comment> \<open>the byte \<^verbatim>\<open>s[i]\<close> as a number; only used below the length\<close>
  "byte_at s i = of_char (s ! i)"

definition index_string :: "string \<Rightarrow> nat \<Rightarrow> panic + nat" where
  \<comment> \<open>\<^verbatim>\<open>s[i]\<close> with Go's bounds check\<close>
  "index_string s i =
     (if i < length s then Inr (byte_at s i) else Inl (IndexOutOfRange i (length s)))"

definition slice_to :: "string \<Rightarrow> nat \<Rightarrow> panic + string" where
  \<comment> \<open>\<^verbatim>\<open>s[:hi]\<close>\<close>
  "slice_to s hi = (if hi \<le> length s then Inr (take hi s) else Inl (SliceOutOfRange hi (length s)))"

definition slice_from :: "string \<Rightarrow> nat \<Rightarrow> panic + string" where
  \<comment> \<open>\<^verbatim>\<open>s[lo:]\<close>\<close>
  "slice_from s lo = (if lo \<le> length s then Inr (drop lo s) else Inl (SliceOutOfRange lo (length s)))"

subsection \<open>Ranging over a string\<close>

text \<open>
  \<^verbatim>\<open>for i, r := range s\<close> walks the UTF-8 encoded code points of \<open>s\<close>: \<open>i\<close> is the
  byte index where the code point starts and \<open>r\<close> its value. A byte below \<open>0x80\<close> is a
  code point of its own; otherwise the Go runtime's \<^verbatim>\<open>decoderune(s, k)\<close> returns the
  code point and the index after it, or \<open>0xFFFD\<close> and \<open>k + 1\<close> where the bytes are not a
  valid encoding. The constants are those of the runtime: \<open>t2 = 0xC0\<close>, \<open>t3 = 0xE0\<close>,
  \<open>t4 = 0xF0\<close>, \<open>t5 = 0xF8\<close>, \<open>maskx = 0x3F\<close>, \<open>mask2 = 0x1F\<close>, \<open>mask3 = 0x0F\<close>,
  \<open>mask4 = 0x07\<close>, \<open>locb = 0x80\<close>, \<open>hicb = 0xBF\<close>.
\<close>

definition runeError :: int where
  "runeError = 0xFFFD"

definition cont_byte :: "string \<Rightarrow> nat \<Rightarrow> bool" where
  \<comment> \<open>\<^verbatim>\<open>locb <= s[i] && s[i] <= hicb\<close>\<close>
  "cont_byte s i = (0x80 \<le> byte_at s i \<and> byte_at s i \<le> 0xBF)"

definition decoderune :: "string \<Rightarrow> nat \<Rightarrow> int \<times> nat" where
  "decoderune s k =
     (if k \<ge> length s then (runeError, k + 1)
      else let n = length s - k; b0 = byte_at s k in
        if 0xC0 \<le> b0 \<and> b0 < 0xE0 then
          (if n > 1 \<and> cont_byte s (k + 1) then
             (let r = push_bit 6 (int b0 AND 0x1F) OR (int (byte_at s (k + 1)) AND 0x3F)
              in if 0x7F < r then (r, k + 2) else (runeError, k + 1))
           else (runeError, k + 1))
        else if 0xE0 \<le> b0 \<and> b0 < 0xF0 then
          (if n > 2 \<and> cont_byte s (k + 1) \<and> cont_byte s (k + 2) then
             (let r = push_bit 12 (int b0 AND 0x0F)
                      OR push_bit 6 (int (byte_at s (k + 1)) AND 0x3F)
                      OR (int (byte_at s (k + 2)) AND 0x3F)
              in if 0x7FF < r \<and> \<not> (0xD800 \<le> r \<and> r \<le> 0xDFFF) then (r, k + 3)
                 else (runeError, k + 1))
           else (runeError, k + 1))
        else if 0xF0 \<le> b0 \<and> b0 < 0xF8 then
          (if n > 3 \<and> cont_byte s (k + 1) \<and> cont_byte s (k + 2) \<and> cont_byte s (k + 3) then
             (let r = push_bit 18 (int b0 AND 0x07)
                      OR push_bit 12 (int (byte_at s (k + 1)) AND 0x3F)
                      OR push_bit 6 (int (byte_at s (k + 2)) AND 0x3F)
                      OR (int (byte_at s (k + 3)) AND 0x3F)
              in if 0xFFFF < r \<and> r \<le> 0x10FFFF then (r, k + 4) else (runeError, k + 1))
           else (runeError, k + 1))
        else (runeError, k + 1))"

definition range_next :: "string \<Rightarrow> nat \<Rightarrow> int \<times> nat" where
  \<comment> \<open>one step of the range loop at byte index \<open>k < len(s)\<close>: the code point and the next index\<close>
  "range_next s k =
     (if byte_at s k < 0x80 then (int (byte_at s k), k + 1) else decoderune s k)"

section \<open>ReplaceInvalidChars\<close>

definition valid_char :: "int \<Rightarrow> bool" where
  \<comment> \<open>the condition negated in the loop of \<^verbatim>\<open>ReplaceInvalidChars\<close>\<close>
  "valid_char charInt =
     ((charInt \<ge> 97 \<and> charInt \<le> 122) \<or> (charInt \<ge> 65 \<and> charInt \<le> 90) \<or>
      (charInt \<ge> 48 \<and> charInt \<le> 57) \<or> charInt = 95)"

definition replace_at :: "string \<Rightarrow> nat \<Rightarrow> panic + string" where
  \<comment> \<open>\<^verbatim>\<open>(*in)[:charIndex] + "_" + (*in)[charIndex+1:]\<close>\<close>
  "replace_at cur charIndex =
     (case slice_to cur charIndex of
        Inl e \<Rightarrow> Inl e
      | Inr a \<Rightarrow> (case slice_from cur (charIndex + 1) of
                   Inl e \<Rightarrow> Inl e
                 | Inr b \<Rightarrow> Inr (a @ ''_'' @ b)))"

definition loop_body :: "nat \<Rightarrow> int \<Rightarrow> string \<Rightarrow> panic + string" where
  "loop_body charIndex char cur =
     (if \<not> valid_char char then replace_at cur charIndex else Inr cur)"

text \<open>
  The loop ranges over the string \<open>ha\<close> that \<^verbatim>\<open>*in\<close> held when the loop began (Go
  evaluates the range expression once), while the body rewrites the current \<^verbatim>\<open>*in\<close>,
  here \<open>cur\<close>.
\<close>

function range_loop :: "string \<Rightarrow> nat \<Rightarrow> string \<Rightarrow> panic + string" where
  "range_loop ha k cur =
     (if k < length ha then
        (case loop_body k (fst (range_next ha k)) cur of
           Inl e \<Rightarrow> Inl e
         | Inr cur' \<Rightarrow> range_loop ha (snd (range_next ha k)) cur')
      else Inr cur)"
  by pat_completeness auto
termination
proof (relation "measure (\<lambda>(ha, k, cur). length ha - k)")
  show "wf (measure (\<lambda>(ha, k, cur). length ha - k))"
    by simp
next
  fix ha :: string and k :: nat and cur x2 :: string
  assume "k < length ha"
  moreover have "k < snd (range_next ha k)"
    by (simp add: range_next_def decoderune_def Let_def)
  ultimately show "((ha, snd (range_next ha k), x2), (ha, k, cur))
      \<in> measure (\<lambda>(ha, k, cur). length ha - k)"
    by simp
qed

declare range_loop.simps [simp del]

definition ReplaceInvalidChars :: "string \<Rightarrow> panic + string" where
  "ReplaceInvalidChars s =
     (case range_loop s 0 s of
        Inl e \<Rightarrow> Inl e
      | Inr cur \<Rightarrow>
          (case index_string cur 0 of
             Inl e \<Rightarrow> Inl e
           | Inr c \<Rightarrow> if c \<ge> 48 \<and> c \<le> 57 then Inr (''_'' @ cur) else Inr cur))"

section \<open>Points and samples\<close>

text \<open>
  A \<^verbatim>\<open>models.Point\<close> is read through four methods: \<^verbatim>\<open>Name()\<close>, \<^verbatim>\<open>Tags()\<close> (a slice of
  key/value pairs, ranged over in slice order), \<^verbatim>\<open>Fields()\<close> (an error, or a Go map from
  field name to a dynamically typed value) and \<^verbatim>\<open>Time()\<close>. A Go map is an association
  list with distinct keys whose order stands for the unspecified order in which
  \<^verbatim>\<open>range\<close> visits the map. The dynamic types a field can have are those of the line
  protocol.
\<close>

type_synonym float64 = real
  \<comment> \<open>a finite float64, as the number it denotes\<close>

datatype field_value =
    FloatField float64
  | IntegerField "64 word"    \<comment> \<open>int64, read with \<^const>\<open>sint\<close>\<close>
  | BooleanField bool
  | StringField string
  | UnsignedField "64 word"   \<comment> \<open>uint64\<close>

record point =
  point_Name :: string
  point_Tags :: "(string \<times> string) list"
  point_Fields :: "string + (string \<times> field_value) list"
  point_Time :: int

record influxDBSample =
  ID :: string
  Name :: string
  Labels :: "(string \<times> string) list"
  Value :: float64
  Timestamp :: int

subsection \<open>The conversion \<^verbatim>\<open>float64(v)\<close> of an int64\<close>

text \<open>
  A float64 has a significand of 53 bits. Converting an integer rounds it to the nearest
  number with at most 53 significant bits, a tie going to the even significand; an
  int64 never leaves the exponent range.
\<close>

fun bit_len :: "nat \<Rightarrow> nat" where
  "bit_len n = (if n = 0 then 0 else Suc (bit_len (n div 2)))"

declare bit_len.simps [simp del]

definition round_53 :: "nat \<Rightarrow> nat" where
  "round_53 a =
     (if a < 2 ^ 53 then a
      else let e = bit_len a - 53; q = a div 2 ^ e; r = a mod 2 ^ e
           in (if 2 * r > 2 ^ e \<or> (2 * r = 2 ^ e \<and> odd q) then q + 1 else q) * 2 ^ e)"

definition float64_of_int64 :: "64 word \<Rightarrow> float64" where
  "float64_of_int64 v =
     (if sint v < 0 then - real (round_53 (nat (- sint v))) else real (round_53 (nat (sint v))))"

subsection \<open>One field of one point\<close>

definition type_switch :: "field_value \<Rightarrow> float64 option" where
  \<comment> \<open>the switch on the field's dynamic type; \<open>None\<close> is the \<^verbatim>\<open>default: continue\<close>\<close>
  "type_switch v =
     (case v of
        FloatField x \<Rightarrow> Some x
      | IntegerField i \<Rightarrow> Some (float64_of_int64 i)
      | BooleanField b \<Rightarrow> (if b then Some 1 else Some 0)
      | _ \<Rightarrow> None)"

definition derive_name :: "string \<Rightarrow> string \<Rightarrow> string" where
  "derive_name measurement field =
     (if field = ''value'' then measurement else measurement @ ''_'' @ field)"

fun tags_loop :: "(string \<times> string) list \<Rightarrow> (string \<times> string) list
    \<Rightarrow> panic + (string \<times> string) list" where
  "tags_loop [] labels = Inr labels"
| "tags_loop ((key, val) # tags) labels =
     (if key = ''__name__'' then tags_loop tags labels
      else (case ReplaceInvalidChars key of
              Inl e \<Rightarrow> Inl e
            | Inr key' \<Rightarrow> tags_loop tags (AList.update key' val labels)))"

subsection \<open>The identity of a sample\<close>

fun Join :: "string list \<Rightarrow> string \<Rightarrow> string" where
  \<comment> \<open>\<^verbatim>\<open>strings.Join\<close>\<close>
  "Join [] sep = []"
| "Join [a] sep = a"
| "Join (a # b # elems) sep = a @ sep @ Join (b # elems) sep"

definition map_index :: "(string \<times> string) list \<Rightarrow> string \<Rightarrow> string" where
  \<comment> \<open>\<^verbatim>\<open>m[k]\<close>: the empty string for a key the map does not have\<close>
  "map_index m k = (case map_of m k of Some v \<Rightarrow> v | None \<Rightarrow> [])"

definition sample_ID :: "string \<Rightarrow> (string \<times> string) list \<Rightarrow> string" where
  "sample_ID name labels =
     (let labelnames = sort (map fst labels);
          parts = foldl (\<lambda>parts l. parts @ [l, map_index labels l]) [name] labelnames
      in Join parts ''.'')"

definition make_sample :: "point \<Rightarrow> string \<Rightarrow> field_value \<Rightarrow> panic + influxDBSample option" where
  \<comment> \<open>lines 52 to 102 for the field \<open>field\<close> with value \<open>v\<close> of the point \<open>s\<close>;
      \<open>Inr None\<close> when the field is skipped\<close>
  "make_sample s field v =
     (case type_switch v of
        None \<Rightarrow> Inr None
      | Some val \<Rightarrow>
          (case ReplaceInvalidChars (derive_name (point_Name s) field) of
             Inl e \<Rightarrow> Inl e
           | Inr name \<Rightarrow>
               (case tags_loop (point_Tags s) [] of
                  Inl e \<Rightarrow> Inl e
                | Inr labels \<Rightarrow>
                    Inr (Some \<lparr>ID = sample_ID name labels, Name = name, Labels = labels,
                               Value = val, Timestamp = point_Time s\<rparr>))))"

section \<open>Encoding and the driver\<close>

text \<open>
  The Prometheus client and the exposition encoder are outside this program. What the
  program sees of them is whether \<^verbatim>\<open>MustNewConstMetric\<close> panics and which error
  \<^verbatim>\<open>metric.Write\<close> and \<^verbatim>\<open>enc.Encode\<close> return; these are parameters.
\<close>

record collaborators =
  MustNewConstMetric :: "influxDBSample \<Rightarrow> string option"
  Write :: "influxDBSample \<Rightarrow> string option"
  Encode :: "influxDBSample \<Rightarrow> string option"

datatype status = Running | Exited int | Panicked panic

record process =
  status :: status
  stderr :: "string list"      \<comment> \<open>the format strings given to \<^verbatim>\<open>fmt.Fprintf(os.Stderr, ...)\<close>\<close>
  logged :: "string list"      \<comment> \<open>the errors given to the logger\<close>
  encoded :: "influxDBSample list"   \<comment> \<open>the samples handed to \<^verbatim>\<open>enc.Encode\<close>\<close>

definition handleErr :: "string \<Rightarrow> process \<Rightarrow> process" where
  "handleErr err p = p\<lparr>stderr := stderr p @ [err], status := Exited 1\<rparr>"

definition emit :: "collaborators \<Rightarrow> influxDBSample \<Rightarrow> process \<Rightarrow> process" where
  \<comment> \<open>lines 104 to 128; the value of \<^verbatim>\<open>enc.Encode(&mf)\<close> is not looked at\<close>
  "emit c sample p =
     (case MustNewConstMetric c sample of
        Some msg \<Rightarrow> p\<lparr>status := Panicked (MustPanic msg)\<rparr>
      | None \<Rightarrow>
          (case Write c sample of
             Some err \<Rightarrow> handleErr err p
           | None \<Rightarrow> (let dropped = Encode c sample in p\<lparr>encoded := encoded p @ [sample]\<rparr>)))"

fun fields_loop :: "collaborators \<Rightarrow> point \<Rightarrow> (string \<times> field_value) list \<Rightarrow> process \<Rightarrow> process" where
  "fields_loop c s [] p = p"
| "fields_loop c s ((field, v) # rest) p =
     (case make_sample s field v of
        Inl e \<Rightarrow> p\<lparr>status := Panicked e\<rparr>
      | Inr None \<Rightarrow> fields_loop c s rest p
      | Inr (Some sample) \<Rightarrow>
          (let p' = emit c sample p
           in if status p' = Running then fields_loop c s rest p' else p'))"

fun parsePointsToSample :: "collaborators \<Rightarrow> point list \<Rightarrow> process \<Rightarrow> process" where
  "parsePointsToSample c [] p = p"
| "parsePointsToSample c (s # points) p =
     (case point_Fields s of
        Inl err \<Rightarrow> parsePointsToSample c points (p\<lparr>logged := logged p @ [err]\<rparr>)
      | Inr fs \<Rightarrow>
          (let p' = fields_loop c s fs p
           in if status p' = Running then parsePointsToSample c points p' else p'))"

subsection \<open>Notions used to state what the sanitizer does on one-byte characters\<close>

text \<open>
  These three are not functions of the program: \<open>ascii\<close> says that every byte of a string
  is below \<open>0x80\<close>, \<open>replace_byte\<close> is the effect of one round of the loop on a character
  of one byte, and \<open>digit_byte\<close> is the test made on the first byte after the loop.
\<close>

definition ascii :: "string \<Rightarrow> bool" where
  "ascii s = (\<forall>c \<in> set s. (of_char c :: nat) < 0x80)"

definition replace_byte :: "char \<Rightarrow> char" where
  "replace_byte c = (if valid_char (int (of_char c)) then c else CHR ''_'')"

definition digit_byte :: "char \<Rightarrow> bool" where
  "digit_byte c = ((of_char c :: nat) \<ge> 48 \<and> (of_char c :: nat) \<le> 57)"

subsection \<open>Notions used to state what the conversion of an int64 gives\<close>

text \<open>
  These three are not functions of the program either. A number fits a significand of 53
  bits when nothing is lost by dropping the bits below its 53 leading ones; its
  significand is what remains. An integer is one that a float64 holds exactly when
  its magnitude fits; lemma \<open>float64_integer_iff\<close> below says that these are the
  integers \<open>m * 2 ^ e\<close> with \<open>\<bar>m\<bar> < 2 ^ 53\<close>.
\<close>

definition significand_53 :: "nat \<Rightarrow> nat" where
  "significand_53 a = a div 2 ^ (bit_len a - 53)"

definition fits_53 :: "nat \<Rightarrow> bool" where
  "fits_53 a = (a mod 2 ^ (bit_len a - 53) = 0)"

definition float64_integer :: "int \<Rightarrow> bool" where
  "float64_integer x = fits_53 (nat \<bar>x\<bar>)"

section \<open>Facts about the sanitizer\<close>

lemma replace_at_in_range:
  "k < length cur \<Longrightarrow> replace_at cur k = Inr (take k cur @ ''_'' @ drop (Suc k) cur)"
  by (simp add: replace_at_def slice_to_def slice_from_def)

lemma loop_body_length:
  "k < length cur \<Longrightarrow> \<exists>cur'. loop_body k r cur = Inr cur' \<and> length cur' = length cur"
  by (auto simp: loop_body_def replace_at_in_range)

lemma range_loop_total:
  "length cur = length ha \<Longrightarrow> \<exists>r. range_loop ha k cur = Inr r \<and> length r = length ha"
proof (induction ha k cur rule: range_loop.induct)
  case (1 ha k cur)
  show ?case
  proof (cases "k < length ha")
    case False
    with "1.prems" show ?thesis
      by (simp add: range_loop.simps)
  next
    case True
    with "1.prems" obtain cur' where body: "loop_body k (fst (range_next ha k)) cur = Inr cur'"
      and len: "length cur' = length ha"
      using loop_body_length [of k cur "fst (range_next ha k)"] by auto
    from "1.IH" [OF True body len] True body show ?thesis
      by (subst range_loop.simps) simp
  qed
qed

lemma ReplaceInvalidChars_total:
  assumes "s \<noteq> []"
  shows "\<exists>r. ReplaceInvalidChars s = Inr r \<and> (length r = length s \<or> length r = Suc (length s))"
proof -
  obtain cur where "range_loop s 0 s = Inr cur" "length cur = length s"
    using range_loop_total [of s s 0] by auto
  with assms show ?thesis
    by (auto simp: ReplaceInvalidChars_def index_string_def)
qed

lemma loop_body_ascii:
  assumes k: "k < length ha"
    and cur: "cur = map replace_byte (take k ha) @ drop k ha"
  shows "loop_body k (int (byte_at ha k)) cur
         = Inr (map replace_byte (take (Suc k) ha) @ drop (Suc k) ha)"
proof -
  from k have split: "drop k ha = ha ! k # drop (Suc k) ha"
    by (simp add: Cons_nth_drop_Suc)
  from k have tk: "take (Suc k) ha = take k ha @ [ha ! k]"
    by (simp add: take_Suc_conv_app_nth)
  from k cur have len: "k < length cur"
    by simp
  from k have lk: "length (map replace_byte (take k ha)) = k"
    by simp
  show ?thesis
  proof (cases "valid_char (int (byte_at ha k))")
    case True
    then have "replace_byte (ha ! k) = ha ! k"
      by (simp add: replace_byte_def byte_at_def)
    with True cur split tk show ?thesis
      by (simp add: loop_body_def)
  next
    case False
    then have rb: "replace_byte (ha ! k) = CHR ''_''"
      by (simp add: replace_byte_def byte_at_def)
    from cur lk have "take k cur = map replace_byte (take k ha)"
      by simp
    moreover from cur lk split have "drop (Suc k) cur = drop (Suc k) ha"
      by (simp add: drop_Suc)
    ultimately show ?thesis
      using False rb tk len by (simp add: loop_body_def replace_at_in_range)
  qed
qed

lemma range_loop_ascii:
  "ascii ha \<Longrightarrow> k \<le> length ha \<Longrightarrow> cur = map replace_byte (take k ha) @ drop k ha \<Longrightarrow>
     range_loop ha k cur = Inr (map replace_byte ha)"
proof (induction ha k cur rule: range_loop.induct)
  case (1 ha k cur)
  show ?case
  proof (cases "k < length ha")
    case False
    with "1.prems" show ?thesis
      by (simp add: range_loop.simps)
  next
    case True
    with "1.prems"(1) have "byte_at ha k < 0x80"
      by (simp add: ascii_def byte_at_def)
    then have nxt: "range_next ha k = (int (byte_at ha k), Suc k)"
      by (simp add: range_next_def)
    have body: "loop_body k (fst (range_next ha k)) cur
                = Inr (map replace_byte (take (Suc k) ha) @ drop (Suc k) ha)"
      using loop_body_ascii [OF True "1.prems"(3)] nxt by simp
    from True have "snd (range_next ha k) \<le> length ha"
      by (simp add: nxt)
    from "1.IH" [OF True body "1.prems"(1) this] nxt
    have "range_loop ha (Suc k) (map replace_byte (take (Suc k) ha) @ drop (Suc k) ha)
          = Inr (map replace_byte ha)"
      by simp
    with True body nxt show ?thesis
      by (subst range_loop.simps) simp
  qed
qed

lemma valid_replace_byte: "valid_char (int (of_char (replace_byte c)))"
  by (simp add: replace_byte_def valid_char_def)

lemma replace_byte_valid: "valid_char (int (of_char c)) \<Longrightarrow> replace_byte c = c"
  by (simp add: replace_byte_def)

lemma valid_char_ascii: "valid_char (int (of_char c)) \<Longrightarrow> (of_char c :: nat) < 0x80"
  by (auto simp: valid_char_def)

lemma ReplaceInvalidChars_ascii:
  assumes "ascii s" "s \<noteq> []"
  shows "ReplaceInvalidChars s =
           Inr (if digit_byte (replace_byte (hd s)) then ''_'' @ map replace_byte s
                else map replace_byte s)"
proof -
  have "range_loop s 0 s = Inr (map replace_byte s)"
    using range_loop_ascii [OF assms(1), of 0 s] by simp
  moreover from assms(2) have "byte_at (map replace_byte s) 0 = of_char (replace_byte (hd s))"
    by (cases s) (simp_all add: byte_at_def)
  ultimately show ?thesis
    using assms(2) by (simp add: ReplaceInvalidChars_def index_string_def digit_byte_def)
qed

lemma ReplaceInvalidChars_ascii_valid:
  assumes "ascii s" "s \<noteq> []" "ReplaceInvalidChars s = Inr r"
  shows "\<forall>c \<in> set r. valid_char (int (of_char c))"
proof -
  have "valid_char (int (of_char (CHR ''_'')))"
    by (simp add: valid_char_def)
  with assms(3) show ?thesis
    unfolding ReplaceInvalidChars_ascii [OF assms(1,2)]
    by (auto simp: valid_replace_byte split: if_splits)
qed

lemma replace_byte_idem: "replace_byte (replace_byte c) = replace_byte c"
  by (rule replace_byte_valid) (rule valid_replace_byte)

lemma underscore_no_digit: "\<not> digit_byte (replace_byte CHR ''_'')"
  by (simp add: digit_byte_def replace_byte_def valid_char_def)

lemma ReplaceInvalidChars_ascii_idem:
  assumes "ascii s" "s \<noteq> []" "ReplaceInvalidChars s = Inr r"
  shows "ReplaceInvalidChars r = Inr r"
proof -
  have valid: "\<forall>c \<in> set r. valid_char (int (of_char c))"
    by (rule ReplaceInvalidChars_ascii_valid [OF assms])
  then have asc: "ascii r"
    by (simp add: ascii_def valid_char_ascii)
  from valid have same: "map replace_byte r = r"
    by (simp add: map_idI replace_byte_valid)
  from assms(3) have r: "r = (if digit_byte (replace_byte (hd s)) then ''_'' @ map replace_byte s
                else map replace_byte s)"
    unfolding ReplaceInvalidChars_ascii [OF assms(1,2)] by simp
  have ne: "r \<noteq> []"
    using r assms(2) by (simp split: if_splits)
  have nd: "\<not> digit_byte (replace_byte (hd r))"
  proof (cases "digit_byte (replace_byte (hd s))")
    case True
    with r have "hd r = CHR ''_''"
      by simp
    then show ?thesis
      by (simp only: underscore_no_digit not_False_eq_True)
  next
    case False
    with r assms(2) have "hd r = replace_byte (hd s)"
      by (simp add: hd_map)
    with False show ?thesis
      by (simp only: replace_byte_idem not_False_eq_True)
  qed
  from ReplaceInvalidChars_ascii [OF asc ne] nd same show ?thesis
    by simp
qed

section \<open>Facts about the label loop and the sample\<close>

lemma make_sample_Some:
  assumes "make_sample s field v = Inr (Some sample)"
  shows "ReplaceInvalidChars (derive_name (point_Name s) field) = Inr (Name sample)"
    and "tags_loop (point_Tags s) [] = Inr (Labels sample)"
    and "type_switch v = Some (Value sample)"
    and "ID sample = sample_ID (Name sample) (Labels sample)"
    and "Timestamp sample = point_Time s"
  using assms by (auto simp: make_sample_def split: option.splits sum.splits)

lemma length_update_alist:
  "length (AList.update k v al) = (if k \<in> fst ` set al then length al else Suc (length al))"
  by (induction al) auto

lemma tags_loop_append:
  "tags_loop (xs @ ys) labels =
     (case tags_loop xs labels of Inl e \<Rightarrow> Inl e | Inr labels' \<Rightarrow> tags_loop ys labels')"
  by (induction xs labels rule: tags_loop.induct) (auto split: sum.splits)

lemma tags_loop_keys_mono:
  "tags_loop ts labels = Inr labels' \<Longrightarrow> fst ` set labels \<subseteq> fst ` set labels'"
proof (induction ts labels rule: tags_loop.induct)
  case (1 labels)
  then show ?case by simp
next
  case (2 key val tags labels)
  show ?case
  proof (cases "key = ''__name__''")
    case True
    with 2 show ?thesis by simp
  next
    case False
    with "2.prems" obtain key' where k: "ReplaceInvalidChars key = Inr key'"
      and run: "tags_loop tags (AList.update key' val labels) = Inr labels'"
      by (auto split: sum.splits)
    from "2.IH"(2) [OF False k run] show ?thesis
      by (auto simp: dom_update)
  qed
qed

lemma tags_loop_length:
  "tags_loop ts labels = Inr labels' \<Longrightarrow>
     length labels' \<le> length labels + length (filter (\<lambda>t. fst t \<noteq> ''__name__'') ts)"
proof (induction ts labels rule: tags_loop.induct)
  case (1 labels)
  then show ?case by simp
next
  case (2 key val tags labels)
  show ?case
  proof (cases "key = ''__name__''")
    case True
    with 2 show ?thesis by simp
  next
    case False
    with "2.prems" obtain key' where k: "ReplaceInvalidChars key = Inr key'"
      and run: "tags_loop tags (AList.update key' val labels) = Inr labels'"
      by (auto split: sum.splits)
    have "length (AList.update key' val labels) \<le> Suc (length labels)"
      by (simp add: length_update_alist)
    with "2.IH"(2) [OF False k run] False show ?thesis
      by simp
  qed
qed

lemma tags_loop_other_key:
  "tags_loop ts labels = Inr labels' \<Longrightarrow>
   \<forall>t \<in> set ts. fst t = ''__name__'' \<or> ReplaceInvalidChars (fst t) \<noteq> Inr k \<Longrightarrow>
   map_of labels' k = map_of labels k"
proof (induction ts labels rule: tags_loop.induct)
  case (1 labels)
  then show ?case by simp
next
  case (2 key val tags labels)
  show ?case
  proof (cases "key = ''__name__''")
    case True
    with 2 show ?thesis by simp
  next
    case False
    with "2.prems" obtain key' where k: "ReplaceInvalidChars key = Inr key'"
      and run: "tags_loop tags (AList.update key' val labels) = Inr labels'"
      by (auto split: sum.splits)
    from "2.prems"(2) False k have ne: "key' \<noteq> k" by auto
    from "2.prems"(2)
    have "\<forall>t \<in> set tags. fst t = ''__name__'' \<or> ReplaceInvalidChars (fst t) \<noteq> Inr k"
      by simp
    from "2.IH"(2) [OF False k run this] ne show ?thesis
      by (simp add: update_conv')
  qed
qed

lemma tags_loop_distinct:
  "tags_loop ts labels = Inr labels' \<Longrightarrow> distinct (map fst labels) \<Longrightarrow>
     distinct (map fst labels')"
  by (induction ts labels rule: tags_loop.induct)
     (auto split: sum.splits if_splits simp: distinct_update)

lemma sort_distinct: "distinct xs \<Longrightarrow> sort xs = sorted_list_of_set (set xs)"
  by (simp add: sorted_list_of_set_sort_remdups distinct_remdups_id)

lemma sort_keys_eq:
  assumes "distinct (map fst l1)" "distinct (map fst l2)" "map_of l1 = map_of l2"
  shows "sort (map fst l1) = sort (map fst l2)"
proof -
  have "set (map fst l1) = dom (map_of l1)" "set (map fst l2) = dom (map_of l2)"
    by (simp_all add: dom_map_of_conv_image_fst)
  with assms(3) have "set (map fst l1) = set (map fst l2)"
    by simp
  with assms(1,2) show ?thesis
    by (simp add: sort_distinct)
qed

lemma tags_loop_keys:
  "tags_loop ts labels = Inr labels' \<Longrightarrow> k \<in> fst ` set labels' \<Longrightarrow>
     k \<in> fst ` set labels \<or>
     (\<exists>t \<in> set ts. fst t \<noteq> ''__name__'' \<and> ReplaceInvalidChars (fst t) = Inr k)"
proof (induction ts labels rule: tags_loop.induct)
  case (1 labels)
  then show ?case by simp
next
  case (2 key val tags labels)
  show ?case
  proof (cases "key = ''__name__''")
    case True
    with 2 show ?thesis by auto
  next
    case False
    with "2.prems" obtain key' where k: "ReplaceInvalidChars key = Inr key'"
      and run: "tags_loop tags (AList.update key' val labels) = Inr labels'"
      by (auto split: sum.splits)
    from "2.IH"(2) [OF False k run "2.prems"(2)] False k show ?thesis
      by (auto simp: dom_update)
  qed
qed

section \<open>Facts about the conversion of an int64\<close>

lemma bit_len_0: "bit_len 0 = 0"
  by (simp add: bit_len.simps)

lemma bit_len_less: "a < 2 ^ bit_len a"
proof (induction a rule: bit_len.induct)
  case (1 n)
  show ?case
  proof (cases "n = 0")
    case True
    then show ?thesis by (simp add: bit_len_0)
  next
    case False
    from "1.IH" [OF False] have "n div 2 < 2 ^ bit_len (n div 2)" .
    then have "n < 2 * 2 ^ bit_len (n div 2)"
      by linarith
    with False show ?thesis
      by (subst bit_len.simps) simp
  qed
qed

lemma bit_len_ge: "0 < a \<Longrightarrow> 2 ^ (bit_len a - 1) \<le> a"
proof (induction a rule: bit_len.induct)
  case (1 n)
  from "1.prems" have n: "n \<noteq> 0" by simp
  then have bl: "bit_len n = Suc (bit_len (n div 2))"
    by (subst bit_len.simps) simp
  show ?case
  proof (cases "n div 2 = 0")
    case True
    with bl "1.prems" show ?thesis
      by (simp add: bit_len_0)
  next
    case False
    then have pos: "0 < n div 2" by simp
    from "1.IH" [OF n pos] have "2 ^ (bit_len (n div 2) - 1) \<le> n div 2" .
    moreover from False have "bit_len (n div 2) \<noteq> 0"
      by (subst bit_len.simps) simp
    then have "(2::nat) ^ bit_len (n div 2) = 2 * 2 ^ (bit_len (n div 2) - 1)"
      by (cases "bit_len (n div 2)") simp_all
    ultimately have "(2::nat) ^ bit_len (n div 2) \<le> n"
      by linarith
    with bl show ?thesis by simp
  qed
qed

lemma pow2_lessD: "(2::nat) ^ m < 2 ^ n \<Longrightarrow> m < n"
  by (rule power_less_imp_less_exp [of 2]) simp_all

lemma bit_len_unique:
  assumes "2 ^ k \<le> a" "a < 2 ^ Suc k"
  shows "bit_len a = Suc k"
proof -
  have "(0::nat) < 2 ^ k"
    by simp
  with assms(1) have pos: "0 < a"
    by linarith
  from assms(1) bit_len_less [of a] have "(2::nat) ^ k < 2 ^ bit_len a"
    by linarith
  then have 1: "k < bit_len a"
    by (rule pow2_lessD)
  from bit_len_ge [OF pos] assms(2) have "(2::nat) ^ (bit_len a - 1) < 2 ^ Suc k"
    by linarith
  then have "bit_len a - 1 < Suc k"
    by (rule pow2_lessD)
  with 1 show ?thesis by linarith
qed

lemma bit_len_mono: "a \<le> b \<Longrightarrow> bit_len a \<le> bit_len b"
proof (cases "a = 0")
  case True
  then show ?thesis by (simp add: bit_len_0)
next
  case False
  assume "a \<le> b"
  with False bit_len_ge [of a] bit_len_less [of b] have "(2::nat) ^ (bit_len a - 1) < 2 ^ bit_len b"
    by linarith
  then have "bit_len a - 1 < bit_len b"
    by (rule pow2_lessD)
  then show ?thesis by linarith
qed

lemma multiples_apart:
  fixes k q u :: nat
  shows "k * u \<le> q * u \<or> q * u + u \<le> k * u"
proof (cases "k \<le> q")
  case True
  then show ?thesis by simp
next
  case False
  then have "Suc q \<le> k" by simp
  then have "Suc q * u \<le> k * u"
    by (rule mult_le_mono1)
  then show ?thesis by simp
qed

lemma multiples_apart2:
  fixes k q u :: nat
  assumes "k * u \<noteq> q * u + u"
  shows "k * u \<le> q * u \<or> q * u + u + u \<le> k * u"
proof (cases "k \<le> q")
  case True
  then show ?thesis by simp
next
  case False
  with assms have "k \<noteq> Suc q" by auto
  with False have "Suc (Suc q) \<le> k" by simp
  then have "Suc (Suc q) * u \<le> k * u"
    by (rule mult_le_mono1)
  then show ?thesis by simp
qed

lemma multiples_apart3:
  fixes k q u :: nat
  assumes "k * u \<noteq> q * u"
  shows "k * u + u \<le> q * u \<or> q * u + u \<le> k * u"
proof (cases "k < q")
  case True
  then have "Suc k \<le> q" by simp
  then have "Suc k * u \<le> q * u"
    by (rule mult_le_mono1)
  then show ?thesis by simp
next
  case False
  with assms have "Suc q \<le> k" by (cases "k = q") auto
  then have "Suc q * u \<le> k * u"
    by (rule mult_le_mono1)
  then show ?thesis by simp
qed

lemma round_multiple_nearest:
  fixes q r u k :: nat
  assumes r: "r < u" and a: "a = q * u + r"
    and R: "R = (if 2 * r > u \<or> (2 * r = u \<and> odd q) then q + 1 else q) * u"
  shows "\<bar>int R - int a\<bar> \<le> \<bar>int (k * u) - int a\<bar>"
proof -
  define x y where "x = k * u" and "y = q * u"
  from R have R': "R = (if 2 * r > u \<or> (2 * r = u \<and> odd q) then y + u else y)"
    by (simp add: y_def)
  from multiples_apart [of k u q] have "x \<le> y \<or> y + u \<le> x"
    by (simp add: x_def y_def)
  with r a R' show ?thesis
    unfolding x_def [symmetric] y_def [symmetric]
    by (auto split: if_splits)
qed

lemma round_multiple_tie:
  fixes q r u k :: nat
  assumes r: "r < u" and a: "a = q * u + r"
    and R: "R = (if 2 * r > u \<or> (2 * r = u \<and> odd q) then q + 1 else q) * u"
    and other: "k * u \<noteq> R" and same: "\<bar>int (k * u) - int a\<bar> = \<bar>int R - int a\<bar>"
  shows "2 * r = u"
proof (rule ccontr)
  assume nt: "2 * r \<noteq> u"
  define x y where "x = k * u" and "y = q * u"
  show False
  proof (cases "2 * r > u")
    case True
    with R have R': "R = y + u"
      by (simp add: y_def)
    with other have "k * u \<noteq> q * u + u"
      by (simp add: y_def)
    from multiples_apart2 [OF this] have "x \<le> y \<or> y + u + u \<le> x"
      by (simp add: x_def y_def)
    with r a R' same True show False
      unfolding x_def [symmetric] y_def [symmetric] by linarith
  next
    case False
    with nt R have R': "R = y"
      by (simp add: y_def)
    with other have "k * u \<noteq> q * u"
      by (simp add: y_def)
    from multiples_apart3 [OF this] have "x + u \<le> y \<or> y + u \<le> x"
      by (simp add: x_def y_def)
    with r a R' same False nt show False
      unfolding x_def [symmetric] y_def [symmetric] by linarith
  qed
qed

lemma bit_len_pow2: "bit_len (2 ^ k) = Suc k"
  by (rule bit_len_unique) simp_all

lemma bit_len_small: "a < 2 ^ 53 \<Longrightarrow> bit_len a \<le> 53"
proof (rule ccontr)
  assume a: "a < 2 ^ 53" and "\<not> bit_len a \<le> 53"
  then have "53 \<le> bit_len a - 1" by simp
  then have "(2::nat) ^ 53 \<le> 2 ^ (bit_len a - 1)"
    by (rule power_increasing) simp
  moreover from \<open>\<not> bit_len a \<le> 53\<close> have "0 < a"
    by (cases "a = 0") (simp_all add: bit_len_0)
  ultimately show False
    using bit_len_ge [of a] a by linarith
qed

lemma big_shape:
  assumes big: "2 ^ 53 \<le> a"
  defines "e \<equiv> bit_len a - 53"
  shows "0 < e" and "bit_len a = 53 + e" and "2 ^ 52 * 2 ^ e \<le> a" and "a < 2 ^ 53 * 2 ^ e"
    and "2 ^ 52 \<le> a div 2 ^ e" and "a div 2 ^ e < 2 ^ 53"
proof -
  from bit_len_mono [OF big] have n: "54 \<le> bit_len a"
    unfolding bit_len_pow2 by simp
  then show e: "0 < e" and bl: "bit_len a = 53 + e"
    by (simp_all add: e_def)
  from big have pos: "0 < a"
    by (cases "a = 0") simp_all
  from bl have "bit_len a - 1 = 52 + e"
    by simp
  with bit_len_ge [OF pos] show lo: "2 ^ 52 * 2 ^ e \<le> a"
    by (simp add: power_add)
  from bit_len_less [of a] bl show hi: "a < 2 ^ 53 * 2 ^ e"
    by (simp add: power_add)
  from lo have "2 ^ 52 * 2 ^ e div 2 ^ e \<le> a div 2 ^ e"
    by (rule div_le_mono)
  then show "2 ^ 52 \<le> a div 2 ^ e"
    by simp
  from hi show "a div 2 ^ e < 2 ^ 53"
    by (simp add: less_mult_imp_div_less)
qed

lemma round_53_big:
  assumes "2 ^ 53 \<le> a"
  shows "round_53 a =
           (if 2 * (a mod 2 ^ (bit_len a - 53)) > 2 ^ (bit_len a - 53) \<or>
               (2 * (a mod 2 ^ (bit_len a - 53)) = 2 ^ (bit_len a - 53) \<and>
                odd (a div 2 ^ (bit_len a - 53)))
            then a div 2 ^ (bit_len a - 53) + 1 else a div 2 ^ (bit_len a - 53))
           * 2 ^ (bit_len a - 53)"
  using assms by (simp add: round_53_def Let_def)

lemma fits_53_small: "a < 2 ^ 53 \<Longrightarrow> fits_53 a"
  using bit_len_small [of a] by (simp add: fits_53_def)

lemma fits_53_multiple:
  assumes "fits_53 x" "2 ^ 52 * 2 ^ e \<le> x"
  shows "\<exists>k. x = k * 2 ^ e"
proof -
  from assms(2) have "(2::nat) ^ (52 + e) \<le> x"
    by (simp add: power_add)
  from bit_len_mono [OF this] have "e \<le> bit_len x - 53"
    by (simp add: bit_len_pow2)
  then have "(2::nat) ^ e dvd 2 ^ (bit_len x - 53)"
    by (rule le_imp_power_dvd)
  moreover from assms(1) have "2 ^ (bit_len x - 53) dvd x"
    by (simp add: fits_53_def mod_eq_0_iff_dvd)
  ultimately have "2 ^ e dvd x"
    by (rule dvd_trans)
  then show ?thesis
    by (auto simp: dvd_def mult.commute)
qed

lemma fits_53_scaled:
  assumes "2 ^ 52 \<le> m" "m \<le> 2 ^ 53"
  shows "fits_53 (m * 2 ^ e)" and "even m \<Longrightarrow> even (significand_53 (m * 2 ^ e))"
proof -
  have both: "fits_53 (m * 2 ^ e) \<and> (even m \<longrightarrow> even (significand_53 (m * 2 ^ e)))"
  proof (cases "m = 2 ^ 53")
    case True
    then have eq: "m * 2 ^ e = 2 ^ (53 + e)"
      by (simp add: power_add)
    have "bit_len (m * 2 ^ e) - 53 = Suc e"
      unfolding eq by (simp add: bit_len_pow2)
    moreover have "(2::nat) ^ (53 + e) = 2 ^ 52 * 2 ^ Suc e"
      by (simp add: power_add)
    ultimately show ?thesis
      unfolding fits_53_def significand_53_def eq by simp
  next
    case False
    with assms have lt: "m < 2 ^ 53" by simp
    from assms(1) have "2 ^ 52 * 2 ^ e \<le> m * 2 ^ e"
      by (rule mult_le_mono1)
    then have lo: "2 ^ (52 + e) \<le> m * 2 ^ e"
      by (simp add: power_add)
    from lt have "m * 2 ^ e < 2 ^ 53 * 2 ^ e"
      by simp
    then have hi: "m * 2 ^ e < 2 ^ Suc (52 + e)"
      by (simp add: power_add)
    from bit_len_unique [OF lo hi] have "bit_len (m * 2 ^ e) - 53 = e"
      by simp
    then show ?thesis
      by (simp add: fits_53_def significand_53_def)
  qed
  from both show "fits_53 (m * 2 ^ e)" by simp
  from both show "even m \<Longrightarrow> even (significand_53 (m * 2 ^ e))" by simp
qed

lemma round_53_shape:
  assumes big: "2 ^ 53 \<le> a"
  shows "\<exists>m. round_53 a = m * 2 ^ (bit_len a - 53) \<and> 2 ^ 52 \<le> m \<and> m \<le> 2 ^ 53 \<and>
           (2 * (a mod 2 ^ (bit_len a - 53)) = 2 ^ (bit_len a - 53) \<longrightarrow> even m)"
proof -
  let ?e = "bit_len a - 53"
  let ?q = "a div 2 ^ ?e"
  let ?r = "a mod 2 ^ ?e"
  let ?m = "if 2 * ?r > 2 ^ ?e \<or> (2 * ?r = 2 ^ ?e \<and> odd ?q) then ?q + 1 else ?q"
  have 1: "round_53 a = ?m * 2 ^ ?e"
    by (rule round_53_big [OF big])
  from big_shape(5,6) [OF big] have 2: "2 ^ 52 \<le> ?m" and 3: "?m \<le> 2 ^ 53"
    by (simp_all split: if_splits)
  have 4: "2 * ?r = 2 ^ ?e \<longrightarrow> even ?m"
    by simp
  from 1 2 3 4 show ?thesis
    by blast
qed

lemma round_53_fits: "fits_53 (round_53 a)"
proof (cases "a < 2 ^ 53")
  case True
  then show ?thesis
    by (simp add: round_53_def fits_53_small)
next
  case False
  then have "2 ^ 53 \<le> a" by simp
  then obtain m where "round_53 a = m * 2 ^ (bit_len a - 53)" "2 ^ 52 \<le> m" "m \<le> 2 ^ 53"
    using round_53_shape [of a] by blast
  then show ?thesis
    by (simp only: fits_53_scaled(1))
qed

lemma round_53_nearest:
  assumes "fits_53 x"
  shows "\<bar>int (round_53 a) - int a\<bar> \<le> \<bar>int x - int a\<bar>"
proof (cases "a < 2 ^ 53")
  case True
  then show ?thesis
    by (simp add: round_53_def)
next
  case False
  then have big: "2 ^ 53 \<le> a" by simp
  let ?e = "bit_len a - 53"
  let ?q = "a div 2 ^ ?e"
  let ?r = "a mod 2 ^ ?e"
  have r: "?r < 2 ^ ?e" by simp
  have a: "a = ?q * 2 ^ ?e + ?r"
    by (rule div_mult_mod_eq [symmetric])
  note R = round_53_big [OF big]
  show ?thesis
  proof (cases "2 ^ 52 * 2 ^ ?e \<le> x")
    case True
    from fits_53_multiple [OF assms True] obtain k where "x = k * 2 ^ ?e" ..
    with round_multiple_nearest [OF r a R, of k] show ?thesis
      by simp
  next
    case False
    from big_shape(5) [OF big] have "2 ^ 52 * 2 ^ ?e \<le> ?q * 2 ^ ?e"
      by (rule mult_le_mono1)
    with False have "x < ?q * 2 ^ ?e" by linarith
    moreover from round_multiple_nearest [OF r a R, of ?q]
    have "\<bar>int (round_53 a) - int a\<bar> \<le> \<bar>int (?q * 2 ^ ?e) - int a\<bar>" .
    moreover have "?q * 2 ^ ?e \<le> a" by simp
    ultimately show ?thesis
      by linarith
  qed
qed

lemma round_53_tie_even:
  assumes fits: "fits_53 x" and other: "x \<noteq> round_53 a"
    and same: "\<bar>int x - int a\<bar> = \<bar>int (round_53 a) - int a\<bar>"
  shows "even (significand_53 (round_53 a))"
proof (cases "a < 2 ^ 53")
  case True
  with other same show ?thesis
    by (simp add: round_53_def)
next
  case False
  then have big: "2 ^ 53 \<le> a" by simp
  let ?e = "bit_len a - 53"
  let ?q = "a div 2 ^ ?e"
  let ?r = "a mod 2 ^ ?e"
  have r: "?r < 2 ^ ?e" by simp
  have a: "a = ?q * 2 ^ ?e + ?r"
    by (rule div_mult_mod_eq [symmetric])
  note R = round_53_big [OF big]
  have far: "2 ^ 52 * 2 ^ ?e \<le> x"
  proof (rule ccontr)
    assume "\<not> 2 ^ 52 * 2 ^ ?e \<le> x"
    moreover from big_shape(5) [OF big] have "2 ^ 52 * 2 ^ ?e \<le> ?q * 2 ^ ?e"
      by (rule mult_le_mono1)
    ultimately have "x < ?q * 2 ^ ?e" by linarith
    moreover from round_multiple_nearest [OF r a R, of ?q]
    have "\<bar>int (round_53 a) - int a\<bar> \<le> \<bar>int (?q * 2 ^ ?e) - int a\<bar>" .
    moreover have "?q * 2 ^ ?e \<le> a" by simp
    ultimately show False
      using same by linarith
  qed
  from fits_53_multiple [OF fits far] obtain k where k: "x = k * 2 ^ ?e" ..
  from other same have tie: "2 * ?r = 2 ^ ?e"
    unfolding k by (rule round_multiple_tie [OF r a R])
  from round_53_shape [OF big] tie
  obtain m where "round_53 a = m * 2 ^ ?e" "2 ^ 52 \<le> m" "m \<le> 2 ^ 53" "even m"
    by blast
  then show ?thesis
    by (simp only: fits_53_scaled(2))
qed

lemma round_53_exact_iff: "round_53 a = a \<longleftrightarrow> fits_53 a"
proof
  assume "round_53 a = a"
  with round_53_fits [of a] show "fits_53 a" by simp
next
  assume "fits_53 a"
  from round_53_nearest [OF this, of a] show "round_53 a = a"
    by simp
qed

lemma fits_53_iff: "fits_53 a \<longleftrightarrow> (\<exists>m e. m < 2 ^ 53 \<and> a = m * 2 ^ e)"
proof
  assume f: "fits_53 a"
  let ?e = "bit_len a - 53"
  from f have a: "a = (a div 2 ^ ?e) * 2 ^ ?e"
    by (simp add: fits_53_def mod_eq_0_iff_dvd)
  have "a div 2 ^ ?e < 2 ^ 53"
  proof (cases "a < 2 ^ 53")
    case True
    have "a div 2 ^ ?e \<le> a" by simp
    with True show ?thesis by linarith
  next
    case False
    then have "2 ^ 53 \<le> a" by simp
    then show ?thesis by (rule big_shape(6))
  qed
  with a show "\<exists>m e. m < 2 ^ 53 \<and> a = m * 2 ^ e"
    by blast
next
  assume "\<exists>m e. m < 2 ^ 53 \<and> a = m * 2 ^ e"
  then obtain m e where m: "m < 2 ^ 53" and a: "a = m * 2 ^ e"
    by blast
  from m have "m * 2 ^ e < 2 ^ 53 * 2 ^ e"
    by simp
  then have "a < 2 ^ (53 + e)"
    by (simp add: a power_add)
  with bit_len_ge [of a] have "a = 0 \<or> (2::nat) ^ (bit_len a - 1) < 2 ^ (53 + e)"
    by (cases "a = 0") (simp, linarith)
  then have "bit_len a - 53 \<le> e"
  proof
    assume "a = 0"
    then show ?thesis by (simp add: bit_len_0)
  next
    assume "(2::nat) ^ (bit_len a - 1) < 2 ^ (53 + e)"
    then have "bit_len a - 1 < 53 + e"
      by (rule pow2_lessD)
    then show ?thesis by simp
  qed
  then have "(2::nat) ^ (bit_len a - 53) dvd 2 ^ e"
    by (rule le_imp_power_dvd)
  then have "2 ^ (bit_len a - 53) dvd a"
    unfolding a by (rule dvd_mult)
  then show "fits_53 a"
    by (simp add: fits_53_def mod_eq_0_iff_dvd)
qed

lemma fits_53_0: "fits_53 0"
  by (simp add: fits_53_def)

lemma round_53_le_twice: "\<bar>int (round_53 a) - int a\<bar> \<le> int a"
  using round_53_nearest [OF fits_53_0, of a] by simp

lemma signed_round_53:
  fixes v :: int
  defines "R \<equiv> (if v < 0 then - int (round_53 (nat (- v))) else int (round_53 (nat v)))"
  shows "float64_integer R"
    and "float64_integer x \<Longrightarrow> \<bar>R - v\<bar> \<le> \<bar>x - v\<bar>"
    and "float64_integer x \<Longrightarrow> x \<noteq> R \<Longrightarrow> \<bar>x - v\<bar> = \<bar>R - v\<bar> \<Longrightarrow>
           even (significand_53 (nat \<bar>R\<bar>))"
proof -
  define a where "a = nat \<bar>v\<bar>"
  have absR: "nat \<bar>R\<bar> = round_53 a"
    by (simp add: R_def a_def)
  show "float64_integer R"
    by (simp add: float64_integer_def absR round_53_fits)
  have dist: "\<bar>R - v\<bar> = \<bar>int (round_53 a) - int a\<bar>"
  proof (cases "v < 0")
    case True
    then have "R = - int (round_53 a)" "int a = - v"
      by (simp_all add: R_def a_def)
    then show ?thesis by linarith
  next
    case False
    then have "R = int (round_53 a)" "int a = v"
      by (simp_all add: R_def a_def)
    then show ?thesis by simp
  qed
  {
    assume x: "float64_integer x"
    define y where "y = nat \<bar>x\<bar>"
    from x have fy: "fits_53 y"
      by (simp add: float64_integer_def y_def)
    have near: "\<bar>int (round_53 a) - int a\<bar> \<le> \<bar>int y - int a\<bar>"
      by (rule round_53_nearest [OF fy])
    have same_side: "(x < 0 \<longleftrightarrow> v < 0) \<or> x = 0 \<or> v = 0 \<Longrightarrow> \<bar>x - v\<bar> = \<bar>int y - int a\<bar>"
      by (auto simp: y_def a_def)
    have other_side: "\<not> ((x < 0 \<longleftrightarrow> v < 0) \<or> x = 0 \<or> v = 0) \<Longrightarrow> int a < \<bar>x - v\<bar>"
      by (auto simp: a_def)
    show "\<bar>R - v\<bar> \<le> \<bar>x - v\<bar>"
      using near same_side other_side round_53_le_twice [of a] dist by linarith
    assume ne: "x \<noteq> R" and eq: "\<bar>x - v\<bar> = \<bar>R - v\<bar>"
    from eq other_side round_53_le_twice [of a] dist
    have side: "(x < 0 \<longleftrightarrow> v < 0) \<or> x = 0 \<or> v = 0"
      by linarith
    with same_side eq dist have eq': "\<bar>int y - int a\<bar> = \<bar>int (round_53 a) - int a\<bar>"
      by linarith
    have "y \<noteq> round_53 a"
    proof
      assume "y = round_53 a"
      with absR have "\<bar>x\<bar> = \<bar>R\<bar>"
        by (simp add: y_def)
      moreover have "v < 0 \<Longrightarrow> R \<le> 0" and "\<not> v < 0 \<Longrightarrow> 0 \<le> R" and "v = 0 \<Longrightarrow> R = 0"
        by (simp_all add: R_def round_53_def)
      ultimately show False
        using ne side by linarith
    qed
    from round_53_tie_even [OF fy this eq'] show "even (significand_53 (nat \<bar>R\<bar>))"
      by (simp add: absR)
  }
qed

lemma float64_of_int64_int:
  "float64_of_int64 i =
     real_of_int (if sint i < 0 then - int (round_53 (nat (- sint i)))
                  else int (round_53 (nat (sint i))))"
  by (simp add: float64_of_int64_def)

lemma float64_integer_iff:
  "float64_integer x \<longleftrightarrow> (\<exists>m e. \<bar>m\<bar> < 2 ^ 53 \<and> x = m * 2 ^ e)"
proof
  assume "float64_integer x"
  then obtain m e where m: "m < 2 ^ 53" and x: "nat \<bar>x\<bar> = m * 2 ^ e"
    by (auto simp: float64_integer_def fits_53_iff)
  from x have "\<bar>x\<bar> = int m * 2 ^ e"
    by (metis abs_ge_zero int_nat_eq of_nat_mult of_nat_numeral of_nat_power)
  then have "x = int m * 2 ^ e \<or> x = (- int m) * 2 ^ e"
    by linarith
  moreover from m have "\<bar>int m\<bar> < 2 ^ 53" "\<bar>- int m\<bar> < 2 ^ 53"
    by simp_all
  ultimately show "\<exists>m e. \<bar>m\<bar> < 2 ^ 53 \<and> x = m * 2 ^ e"
    by blast
next
  assume "\<exists>m e. \<bar>m\<bar> < 2 ^ 53 \<and> x = m * 2 ^ e"
  then obtain m :: int and e :: nat where m: "\<bar>m\<bar> < 2 ^ 53" and x: "x = m * 2 ^ e"
    by blast
  from x have "nat \<bar>x\<bar> = nat \<bar>m\<bar> * 2 ^ e"
    by (simp add: abs_mult nat_mult_distrib nat_power_eq)
  moreover from m have "nat \<bar>m\<bar> < 2 ^ 53"
    by simp
  ultimately show "float64_integer x"
    unfolding float64_integer_def fits_53_iff by blast
qed

lemma bit_len_2_53: "bit_len 9007199254740992 = 54"
  by (simp add: bit_len.simps)

lemma round_53_exact: "a \<le> 2 ^ 53 \<Longrightarrow> round_53 a = a"
proof (cases "a < 2 ^ 53")
  case True
  then show ?thesis by (simp add: round_53_def)
next
  case False
  assume "a \<le> 2 ^ 53"
  with False have "a = 2 ^ 53" by simp
  then show ?thesis
    by (simp add: round_53_def bit_len_2_53 Let_def)
qed

lemma float64_of_int64_exact:
  assumes "\<bar>sint v\<bar> \<le> 2 ^ 53"
  shows "float64_of_int64 v = real_of_int (sint v)"
proof (cases "sint v < 0")
  case True
  with assms have "nat (- sint v) \<le> 2 ^ 53"
    by (simp add: nat_le_iff)
  then have "round_53 (nat (- sint v)) = nat (- sint v)"
    by (rule round_53_exact)
  with True show ?thesis
    by (simp add: float64_of_int64_def)
next
  case False
  with assms have "nat (sint v) \<le> 2 ^ 53"
    by (simp add: nat_le_iff)
  then have "round_53 (nat (sint v)) = nat (sint v)"
    by (rule round_53_exact)
  with False show ?thesis
    by (simp add: float64_of_int64_def)
qed

section \<open>Facts about the encoding step\<close>

lemma Write_error_fatal:
  assumes "MustNewConstMetric c sample = None" "Write c sample = Some err"
  shows "emit c sample p = p\<lparr>stderr := stderr p @ [err], status := Exited 1\<rparr>"
  using assms by (simp add: emit_def handleErr_def)

lemma Encode_result_unused:
  "emit (c\<lparr>Encode := f\<rparr>) sample p = emit c sample p"
  by (simp add: emit_def Let_def split: option.splits)

section \<open>The sanitizer\<close>

text \<open>
  C1: for every input string, ReplaceInvalidChars rewrites every character outside
  a-z, A-Z, 0-9 and \<open>_\<close> to \<open>_\<close>, so that the result holds only such characters, also for
  multi-byte input. The code does not: of the two bytes \<open>C3 A9\<close> that encode U+00E9 the
  loop replaces the byte at the index of the code point only, and the byte \<open>A9\<close> stays
  in the result.
\<close>

theorem ReplaceInvalidChars_multibyte:
  "ReplaceInvalidChars [CHR 0xC3, CHR 0xA9] = Inr [CHR ''_'', CHR 0xA9] \<and>
   \<not> valid_char (of_char (CHR 0xA9))"
  by code_simp

text \<open>
  C2: ReplaceInvalidChars leaves the empty string unchanged and does not read out of
  bounds. The code does: with no character to range over, the check of the first
  character indexes position 0 of a string of length 0, which panics.
\<close>

theorem ReplaceInvalidChars_empty:
  "ReplaceInvalidChars [] = Inl (IndexOutOfRange 0 0)"
  by code_simp

text \<open>
  C4: ReplaceInvalidChars is idempotent. The code is not, on multi-byte input: the
  byte \<open>A9\<close> that the first run leaves behind is no valid encoding on its own, so the
  second run reads it as U+FFFD and replaces it.
\<close>

theorem ReplaceInvalidChars_twice:
  "ReplaceInvalidChars [CHR 0xC3, CHR 0xA9] = Inr [CHR ''_'', CHR 0xA9] \<and>
   ReplaceInvalidChars [CHR ''_'', CHR 0xA9] = Inr ''__''"
  by code_simp

section \<open>The flattener\<close>

text \<open>
  C3: the label set of a sample never has the key \<open>__name__\<close>, also for a tag key that
  only becomes \<open>__name__\<close> when sanitized. The code compares the key with \<open>__name__\<close>
  before it sanitizes it: the tag key \<open>__name_.\<close> passes the comparison and is stored
  under \<open>__name__\<close>.
\<close>

theorem reserved_key_after_sanitizing:
  "make_sample
     \<lparr>point_Name = ''cpu'', point_Tags = [(''__name_.'', ''x'')],
        point_Fields = Inr [(''value'', FloatField 1)], point_Time = 1000000000\<rparr>
     ''value'' (FloatField 1)
   = Inr (Some \<lparr>ID = ''cpu.__name__.x'', Name = ''cpu'', Labels = [(''__name__'', ''x'')],
                  Value = 1, Timestamp = 1000000000\<rparr>)"
  by code_simp

text \<open>
  C7, as the code has it: a float64 field passes through unchanged; an int64 field is
  converted to the float64 nearest to it, that is to the nearest integer that a float64
  holds exactly, and of two equally near ones to the one with the even significand;
  the result is the integer itself exactly when the integer has at most 53 significant
  bits, which is so whenever its magnitude is at most \<open>2^53\<close>; a boolean field becomes 1
  for true and 0 for false; a field of any other dynamic type (a string, a uint64)
  gives no sample and no error.
\<close>

theorem field_value_coercion:
  "type_switch (FloatField x) = Some x \<and>
   (\<exists>r. type_switch (IntegerField i) = Some (real_of_int r) \<and> float64_integer r \<and>
        (\<forall>y. float64_integer y \<longrightarrow> \<bar>r - sint i\<bar> \<le> \<bar>y - sint i\<bar>) \<and>
        (\<forall>y. float64_integer y \<and> y \<noteq> r \<and> \<bar>y - sint i\<bar> = \<bar>r - sint i\<bar> \<longrightarrow>
             even (significand_53 (nat \<bar>r\<bar>)))) \<and>
   (type_switch (IntegerField i) = Some (real_of_int (sint i)) \<longleftrightarrow> float64_integer (sint i)) \<and>
   (\<bar>sint i\<bar> \<le> 2 ^ 53 \<longrightarrow> type_switch (IntegerField i) = Some (real_of_int (sint i))) \<and>
   type_switch (BooleanField b) = Some (if b then 1 else 0) \<and>
   make_sample s field (StringField t) = Inr None \<and>
   make_sample s field (UnsignedField u) = Inr None"
proof -
  define r where "r = (if sint i < 0 then - int (round_53 (nat (- sint i)))
                       else int (round_53 (nat (sint i))))"
  have val: "type_switch (IntegerField i) = Some (real_of_int r)"
    by (simp add: type_switch_def float64_of_int64_int r_def)
  have holds: "float64_integer r"
    unfolding r_def by (rule signed_round_53(1))
  have near: "\<forall>y. float64_integer y \<longrightarrow> \<bar>r - sint i\<bar> \<le> \<bar>y - sint i\<bar>"
    unfolding r_def using signed_round_53(2) by blast
  have tie: "\<forall>y. float64_integer y \<and> y \<noteq> r \<and> \<bar>y - sint i\<bar> = \<bar>r - sint i\<bar> \<longrightarrow>
             even (significand_53 (nat \<bar>r\<bar>))"
    unfolding r_def using signed_round_53(3) by blast
  have exact: "type_switch (IntegerField i) = Some (real_of_int (sint i)) \<longleftrightarrow>
               float64_integer (sint i)"
  proof
    assume "type_switch (IntegerField i) = Some (real_of_int (sint i))"
    with val have "r = sint i"
      by (metis option.inject of_int_eq_iff)
    with holds show "float64_integer (sint i)" by simp
  next
    assume "float64_integer (sint i)"
    with near have "\<bar>r - sint i\<bar> \<le> \<bar>sint i - sint i\<bar>" by blast
    then have "r = sint i" by simp
    with val show "type_switch (IntegerField i) = Some (real_of_int (sint i))"
      by (simp only:)
  qed
  have small: "\<bar>sint i\<bar> \<le> 2 ^ 53 \<longrightarrow> type_switch (IntegerField i) = Some (real_of_int (sint i))"
    by (simp add: type_switch_def float64_of_int64_exact)
  have rest: "type_switch (FloatField x) = Some x"
    "type_switch (BooleanField b) = Some (if b then 1 else 0)"
    "make_sample s field (StringField t) = Inr None"
    "make_sample s field (UnsignedField u) = Inr None"
    by (simp_all add: type_switch_def make_sample_def)
  from val holds near tie have "\<exists>r. type_switch (IntegerField i) = Some (real_of_int r) \<and>
        float64_integer r \<and>
        (\<forall>y. float64_integer y \<longrightarrow> \<bar>r - sint i\<bar> \<le> \<bar>y - sint i\<bar>) \<and>
        (\<forall>y. float64_integer y \<and> y \<noteq> r \<and> \<bar>y - sint i\<bar> = \<bar>r - sint i\<bar> \<longrightarrow>
             even (significand_53 (nat \<bar>r\<bar>)))"
    by blast
  with exact small rest show ?thesis
    by (intro conjI)
qed

theorem field_value_coercion_witness:
  "type_switch (IntegerField 9007199254740995) = Some 9007199254740996 \<and>
   float64_integer 9007199254740994 \<and>
   \<bar>9007199254740996 - sint (9007199254740995 :: 64 word)\<bar>
     \<le> \<bar>9007199254740994 - sint (9007199254740995 :: 64 word)\<bar> \<and>
   \<bar>9007199254740994 - sint (9007199254740995 :: 64 word)\<bar>
     = \<bar>9007199254740996 - sint (9007199254740995 :: 64 word)\<bar> \<and>
   even (significand_53 (nat \<bar>9007199254740996\<bar>)) \<and>
   float64_integer (sint (9007199254740994 :: 64 word)) \<and>
   type_switch (IntegerField 9007199254740994)
     = Some (real_of_int (sint (9007199254740994 :: 64 word))) \<and>
   \<bar>sint (42 :: 64 word)\<bar> \<le> 2 ^ 53 \<and>
   type_switch (IntegerField 42) = Some (real_of_int (sint (42 :: 64 word))) \<and>
   float64_integer (sint (42 :: 64 word))"
proof -
  have bl4: "bit_len 9007199254740994 = 54" and bl5: "bit_len 9007199254740995 = 54"
    by (simp_all add: bit_len.simps)
  have v: "type_switch (IntegerField 9007199254740995) = Some 9007199254740996"
    by (simp add: type_switch_def float64_of_int64_def round_53_def bl5)
  have fy: "float64_integer 9007199254740994"
    by (simp add: float64_integer_def fits_53_def bl4)
  have d: "\<bar>9007199254740994 - sint (9007199254740995 :: 64 word)\<bar>
     = \<bar>9007199254740996 - sint (9007199254740995 :: 64 word)\<bar>"
    by simp
  from field_value_coercion [where i = "9007199254740995"]
  obtain r where r: "type_switch (IntegerField 9007199254740995) = Some (real_of_int r)"
    and near: "\<forall>y. float64_integer y \<longrightarrow>
                 \<bar>r - sint (9007199254740995 :: 64 word)\<bar>
                   \<le> \<bar>y - sint (9007199254740995 :: 64 word)\<bar>"
    and tie: "\<forall>y. float64_integer y \<and> y \<noteq> r \<and>
                 \<bar>y - sint (9007199254740995 :: 64 word)\<bar>
                   = \<bar>r - sint (9007199254740995 :: 64 word)\<bar> \<longrightarrow>
                 even (significand_53 (nat \<bar>r\<bar>))"
    by blast
  from r v have req: "r = 9007199254740996"
    by simp
  from near fy have n: "\<bar>9007199254740996 - sint (9007199254740995 :: 64 word)\<bar>
     \<le> \<bar>9007199254740994 - sint (9007199254740995 :: 64 word)\<bar>"
    unfolding req by blast
  have "(9007199254740994 :: int) \<noteq> 9007199254740996"
    by simp
  with tie fy d have ev: "even (significand_53 (nat \<bar>9007199254740996\<bar>))"
    unfolding req by blast
  have f4: "float64_integer (sint (9007199254740994 :: 64 word))"
    by (simp add: float64_integer_def fits_53_def bl4)
  from field_value_coercion [where i = "9007199254740994"] f4
  have e4: "type_switch (IntegerField 9007199254740994)
     = Some (real_of_int (sint (9007199254740994 :: 64 word)))"
    by blast
  have s42: "\<bar>sint (42 :: 64 word)\<bar> \<le> 2 ^ 53"
    by simp
  from field_value_coercion [where i = 42] s42
  have e42: "type_switch (IntegerField 42) = Some (real_of_int (sint (42 :: 64 word)))"
    by blast
  from field_value_coercion [where i = 42] e42
  have f42: "float64_integer (sint (42 :: 64 word))"
    by blast
  from v fy n d ev f4 e4 s42 e42 f42 show ?thesis
    by (intro conjI)
qed

text \<open>
  C7 as stated (every int64 converts to a float64 equal to it) fails: the int64
  \<open>2^53 + 1\<close> has 54 significant bits and is converted to \<open>2^53\<close>.
\<close>

theorem int64_conversion_rounds:
  "type_switch (IntegerField 9007199254740993) = Some 9007199254740992 \<and>
   type_switch (IntegerField 9007199254740993)
     \<noteq> Some (real_of_int (sint (9007199254740993 :: 64 word)))"
proof -
  have "bit_len 9007199254740993 = 54"
    by (simp add: bit_len.simps)
  then show ?thesis
    by (simp add: type_switch_def float64_of_int64_def round_53_def)
qed

text \<open>
  C8: for every point and field that yield a sample, the name of the sample is the
  sanitized form of the measurement name when the field is called \<open>value\<close>, and of
  measurement, \<open>_\<close> and field name joined otherwise.
\<close>

theorem metric_name_derivation:
  assumes "make_sample s field v = Inr (Some sample)"
  shows "ReplaceInvalidChars
           (if field = ''value'' then point_Name s else point_Name s @ ''_'' @ field)
         = Inr (Name sample)"
  using make_sample_Some(1) [OF assms] by (simp add: derive_name_def)

theorem metric_name_derivation_witness:
  "make_sample
     \<lparr>point_Name = ''cpu'', point_Tags = [(''host'', ''a'')],
        point_Fields = Inr [(''usage'', FloatField 42), (''idle'', BooleanField True)],
        point_Time = 1000000000\<rparr>
     ''usage'' (FloatField 42)
   = Inr (Some \<lparr>ID = ''cpu_usage.host.a'', Name = ''cpu_usage'', Labels = [(''host'', ''a'')],
                  Value = 42, Timestamp = 1000000000\<rparr>)
   \<and> ReplaceInvalidChars (''cpu'' @ ''_'' @ ''usage'') = Inr ''cpu_usage''"
proof -
  let ?s = "\<lparr>point_Name = ''cpu'', point_Tags = [(''host'', ''a'')],
        point_Fields = Inr [(''usage'', FloatField 42), (''idle'', BooleanField True)],
        point_Time = 1000000000\<rparr>"
  let ?sample = "\<lparr>ID = ''cpu_usage.host.a'', Name = ''cpu_usage'', Labels = [(''host'', ''a'')],
                  Value = 42, Timestamp = 1000000000\<rparr>"
  have run: "make_sample ?s ''usage'' (FloatField 42) = Inr (Some ?sample)"
    by code_simp
  have "ReplaceInvalidChars (''cpu'' @ ''_'' @ ''usage'') = Inr ''cpu_usage''"
    using metric_name_derivation [OF run] by simp
  with run show ?thesis
    by (intro conjI)
qed

text \<open>
  C10: when two tags of a point, neither of them \<open>__name__\<close>, sanitize to the same key
  \<open>k\<close> and no later tag does, the sample has one label under \<open>k\<close>, with the value of the
  later of the two tags, and has fewer labels than the point has tags other than
  \<open>__name__\<close>.
\<close>

theorem colliding_keys_last_wins:
  assumes run: "make_sample s field v = Inr (Some sample)"
    and tags: "point_Tags s = ts1 @ (k1, v1) # ts2 @ (k2, v2) # ts3"
    and k1: "k1 \<noteq> ''__name__''" "ReplaceInvalidChars k1 = Inr k"
    and k2: "k2 \<noteq> ''__name__''" "ReplaceInvalidChars k2 = Inr k"
    and later: "\<forall>t \<in> set ts3. fst t = ''__name__'' \<or> ReplaceInvalidChars (fst t) \<noteq> Inr k"
  shows "map_of (Labels sample) k = Some v2 \<and> distinct (map fst (Labels sample)) \<and>
         length (Labels sample) < length (filter (\<lambda>t. fst t \<noteq> ''__name__'') (point_Tags s))"
proof -
  let ?cnt = "\<lambda>ts. length (filter (\<lambda>t. fst t \<noteq> ''__name__'') ts)"
  from make_sample_Some(2) [OF run] tags
  have all: "tags_loop (ts1 @ (k1, v1) # ts2 @ (k2, v2) # ts3) [] = Inr (Labels sample)"
    by simp
  then obtain la where la: "tags_loop ts1 [] = Inr la"
    and r1: "tags_loop ((k1, v1) # ts2 @ (k2, v2) # ts3) la = Inr (Labels sample)"
    by (auto simp: tags_loop_append split: sum.splits)
  let ?lb = "AList.update k v1 la"
  from r1 k1 have "tags_loop (ts2 @ (k2, v2) # ts3) ?lb = Inr (Labels sample)"
    by simp
  then obtain lc where lc: "tags_loop ts2 ?lb = Inr lc"
    and r2: "tags_loop ((k2, v2) # ts3) lc = Inr (Labels sample)"
    by (auto simp: tags_loop_append split: sum.splits)
  let ?ld = "AList.update k v2 lc"
  from r2 k2 have r3: "tags_loop ts3 ?ld = Inr (Labels sample)"
    by simp
  have "k \<in> fst ` set ?lb"
    by (simp add: dom_update)
  with tags_loop_keys_mono [OF lc] have kc: "k \<in> fst ` set lc"
    by blast
  have "map_of (Labels sample) k = map_of ?ld k"
    by (rule tags_loop_other_key [OF r3 later])
  then have val: "map_of (Labels sample) k = Some v2"
    by (simp add: update_conv')
  have dist: "distinct (map fst (Labels sample))"
    using tags_loop_distinct [OF all] by simp
  have "length (Labels sample) \<le> length ?ld + ?cnt ts3"
    by (rule tags_loop_length [OF r3])
  also from kc have "length ?ld = length lc"
    by (simp add: length_update_alist)
  also have "length lc \<le> length ?lb + ?cnt ts2"
    by (rule tags_loop_length [OF lc])
  also have "length ?lb \<le> Suc (length la)"
    by (simp add: length_update_alist)
  also have "length la \<le> ?cnt ts1"
    using tags_loop_length [OF la] by simp
  finally have "length (Labels sample) \<le> Suc (?cnt ts1) + ?cnt ts2 + ?cnt ts3"
    by simp
  with k1(1) k2(1) tags have "length (Labels sample) < ?cnt (point_Tags s)"
    by simp
  with val dist show ?thesis
    by simp
qed

theorem colliding_keys_last_wins_witness:
  "make_sample
     \<lparr>point_Name = ''cpu'', point_Tags = [(''a-b'', ''1''), (''a.b'', ''2'')],
        point_Fields = Inr [(''value'', FloatField 1)], point_Time = 1000000000\<rparr>
     ''value'' (FloatField 1)
   = Inr (Some \<lparr>ID = ''cpu.a_b.2'', Name = ''cpu'', Labels = [(''a_b'', ''2'')], Value = 1,
                  Timestamp = 1000000000\<rparr>)
   \<and> ReplaceInvalidChars ''a-b'' = Inr ''a_b'' \<and> ReplaceInvalidChars ''a.b'' = Inr ''a_b''
   \<and> map_of [(''a_b'', ''2'')] ''a_b'' = Some ''2''
   \<and> length [(''a_b'', ''2'')]
       < length (filter (\<lambda>t. fst t \<noteq> ''__name__'') [(''a-b'', ''1''), (''a.b'', ''2'')])"
proof -
  let ?s = "\<lparr>point_Name = ''cpu'', point_Tags = [(''a-b'', ''1''), (''a.b'', ''2'')],
        point_Fields = Inr [(''value'', FloatField 1)], point_Time = 1000000000\<rparr>"
  let ?sample = "\<lparr>ID = ''cpu.a_b.2'', Name = ''cpu'', Labels = [(''a_b'', ''2'')], Value = 1,
                  Timestamp = 1000000000\<rparr>"
  have run: "make_sample ?s ''value'' (FloatField 1) = Inr (Some ?sample)"
    by code_simp
  have tags: "point_Tags ?s = [] @ (''a-b'', ''1'') # [] @ (''a.b'', ''2'') # []"
    by simp
  have n1: "''a-b'' \<noteq> ''__name__''" and n2: "''a.b'' \<noteq> ''__name__''"
    by simp_all
  have k1: "ReplaceInvalidChars ''a-b'' = Inr ''a_b''"
    by code_simp
  have k2: "ReplaceInvalidChars ''a.b'' = Inr ''a_b''"
    by code_simp
  have later: "\<forall>t \<in> set []. fst t = ''__name__'' \<or> ReplaceInvalidChars (fst t) \<noteq> Inr ''a_b''"
    by simp
  have "map_of [(''a_b'', ''2'')] ''a_b'' = Some ''2''
     \<and> length [(''a_b'', ''2'')]
       < length (filter (\<lambda>t. fst t \<noteq> ''__name__'') [(''a-b'', ''1''), (''a.b'', ''2'')])"
    using colliding_keys_last_wins [OF run tags n1 k1 n2 k2 later] by simp
  with run k1 k2 show ?thesis
    by (intro conjI) simp_all
qed

section \<open>The identity\<close>

text \<open>
  C5: two samples with the same name and the same label keys but different label
  values have different identities. The code joins names, keys and values with a dot
  and a value may hold dots itself: the labels \<open>a = x.b.y, b = z\<close> and
  \<open>a = x, b = y.b.z\<close> under the name \<open>m\<close> get the same identity.
\<close>

theorem sample_ID_collision:
  "sample_ID ''m'' [(''a'', ''x.b.y''), (''b'', ''z'')] = ''m.a.x.b.y.b.z'' \<and>
   sample_ID ''m'' [(''a'', ''x''), (''b'', ''y.b.z'')] = ''m.a.x.b.y.b.z''"
  by code_simp

text \<open>
  C6: two label sets that map the same keys to the same values give, with the same
  name, the same identity, in whatever order the labels were inserted or are visited.
\<close>

theorem sample_ID_order_independent:
  assumes "distinct (map fst l1)" "distinct (map fst l2)" "map_of l1 = map_of l2"
  shows "sample_ID name l1 = sample_ID name l2"
proof -
  have "map_index l1 = map_index l2"
    using assms(3) by (simp add: fun_eq_iff map_index_def)
  with sort_keys_eq [OF assms] show ?thesis
    by (simp add: sample_ID_def)
qed

theorem sample_ID_order_independent_witness:
  "distinct (map fst [(''host'', ''a''), (''dc'', ''eu'')]) \<and>
   distinct (map fst [(''dc'', ''eu''), (''host'', ''a'')]) \<and>
   map_of [(''host'', ''a''), (''dc'', ''eu'')] = map_of [(''dc'', ''eu''), (''host'', ''a'')] \<and>
   sample_ID ''cpu'' [(''host'', ''a''), (''dc'', ''eu'')] = ''cpu.dc.eu.host.a'' \<and>
   sample_ID ''cpu'' [(''dc'', ''eu''), (''host'', ''a'')] = ''cpu.dc.eu.host.a''"
proof -
  have d1: "distinct (map fst [(''host'', ''a''), (''dc'', ''eu'')])"
    and d2: "distinct (map fst [(''dc'', ''eu''), (''host'', ''a'')])"
    by simp_all
  have m: "map_of [(''host'', ''a''), (''dc'', ''eu'')] = map_of [(''dc'', ''eu''), (''host'', ''a'')]"
    by (rule ext) simp
  have v: "sample_ID ''cpu'' [(''host'', ''a''), (''dc'', ''eu'')] = ''cpu.dc.eu.host.a''"
    by code_simp
  have "sample_ID ''cpu'' [(''dc'', ''eu''), (''host'', ''a'')] = ''cpu.dc.eu.host.a''"
    using sample_ID_order_independent [OF d1 d2 m, of "''cpu''"] v by simp
  with d1 d2 m v show ?thesis
    by (intro conjI)
qed

section \<open>Serialization errors\<close>

text \<open>
  C9: every failure to write or encode a metric record ends the run with exit code 1
  and the message on the error stream. The code does so for an error of
  \<^verbatim>\<open>metric.Write\<close>, and drops the error that \<^verbatim>\<open>enc.Encode\<close> returns: the run goes on,
  with nothing on the error stream.
\<close>

theorem Encode_error_dropped:
  "parsePointsToSample
     \<lparr>MustNewConstMetric = (\<lambda>_. None), Write = (\<lambda>_. None),
        Encode = (\<lambda>_. Some ''write /dev/stdout: broken pipe'')\<rparr>
     [\<lparr>point_Name = ''cpu'', point_Tags = [(''host'', ''a'')],
        point_Fields = Inr [(''value'', FloatField 1.5)], point_Time = 1000000000\<rparr>]
     \<lparr>status = Running, stderr = [], logged = [], encoded = []\<rparr>
   = \<lparr>status = Running, stderr = [], logged = [],
      encoded = [\<lparr>ID = ''cpu.host.a'', Name = ''cpu'', Labels = [(''host'', ''a'')],
                  Value = 1.5, Timestamp = 1000000000\<rparr>]\<rparr>"
  by code_simp

end
